theory Spec2Isabelle
  imports Main "HOL-Library.Sublist"
begin

section \<open>The site-scoped recursive crawler (get-all-child-pages.py)\<close>

text \<open>
  The crawler talks to two collaborators that are not code of the repository: the HTTP
  client together with the HTML parser (\<^verbatim>\<open>requests.get\<close>, \<^verbatim>\<open>BeautifulSoup(...).find_all('a')\<close>)
  and the URL resolver (\<^verbatim>\<open>urllib.parse.urljoin\<close>). They are parameters of the model, collected
  in a \<open>world\<close>: every theorem below holds for every web and every resolver.

  \<^item> \<open>requests_get w url\<close> is what the GET of \<open>url\<close> gives: either the call raises
    (\<open>ConnectionFailed\<close>), or there is a response with a status code and a body, of which
    the crawler only reads the anchors in document order; each anchor is the value of
    \<^verbatim>\<open>anchor.get('href')\<close>, \<open>None\<close> when the attribute is absent.
  \<^item> \<open>urljoin w base href\<close> is the resolved absolute URL, or the exception the resolver raises.

  The two \<^verbatim>\<open>print\<close> calls of \<^verbatim>\<open>crawl_page\<close> are left out, and so is Python's recursion limit:
  the depth of nested calls is a parameter of the model.
\<close>

datatype py_error = RequestException | AttributeError | ValueError

datatype response =
    ConnectionFailed
  | Response nat "string option list"

record world =
  requests_get :: "string \<Rightarrow> response"
  urljoin :: "string \<Rightarrow> string \<Rightarrow> py_error + string"

text \<open>
  The two mutable arguments of \<^verbatim>\<open>crawl_page\<close>, the set \<^verbatim>\<open>visited_urls\<close> and the list
  \<^verbatim>\<open>child_urls\<close>, are passed as a state and returned updated. The state also records the
  GET requests sent so far, oldest first: the network effect of the code made explicit.
\<close>

record crawl_state =
  visited_urls :: "string set"
  child_urls :: "string list"
  get_requests :: "string list"

datatype outcome = Returned | Raised py_error

text \<open>\<^verbatim>\<open>s.startswith(p)\<close> and \<^verbatim>\<open>s.split('#')[0]\<close>.\<close>

definition startswith :: "string \<Rightarrow> string \<Rightarrow> bool" where
  "startswith s p = prefix p s"

definition split_hash_0 :: "string \<Rightarrow> string" where
  "split_hash_0 s = takeWhile (\<lambda>c. c \<noteq> CHR ''#'') s"

text \<open>
  \<^verbatim>\<open>crawl_page(url, visited_urls, child_urls, original_url)\<close> and its loop over the anchors.
  The natural number is the depth of nested \<^verbatim>\<open>crawl_page\<close> calls still allowed: a call at
  depth 0 gives \<open>None\<close> (the traversal did not finish within that depth). An exception ends
  the loop and every enclosing call at once, with the state as mutated so far: the source
  has no \<^verbatim>\<open>try\<close>.

  The condition of line 34 is \<^verbatim>\<open>href and href.startswith('https://') or href.startswith('/')\<close>,
  which Python reads as \<^verbatim>\<open>(href and href.startswith('https://')) or href.startswith('/')\<close>.
  For a string, \<open>href_condition\<close> is its truth value (for the empty string the left operand
  is the empty string and the right one is False). When the attribute is absent \<^verbatim>\<open>href\<close>
  is \<^verbatim>\<open>None\<close>: the left operand of \<^verbatim>\<open>or\<close> is \<^verbatim>\<open>None\<close>, so the right operand is evaluated and
  \<^verbatim>\<open>None.startswith\<close> raises AttributeError.
\<close>

definition href_condition :: "string \<Rightarrow> bool" where
  "href_condition href \<longleftrightarrow> (href \<noteq> [] \<and> startswith href ''https://'') \<or> startswith href ''/''"

fun crawl_page :: "world \<Rightarrow> nat \<Rightarrow> string \<Rightarrow> crawl_state \<Rightarrow> string \<Rightarrow> (outcome \<times> crawl_state) option"
  and for_anchors :: "world \<Rightarrow> nat \<Rightarrow> string \<Rightarrow> string option list \<Rightarrow> crawl_state \<Rightarrow> string \<Rightarrow> (outcome \<times> crawl_state) option"
where
  "crawl_page w 0 url s original_url = None"
| "crawl_page w (Suc n) url s original_url =
     (let s1 = s\<lparr>visited_urls := insert url (visited_urls s),
                 get_requests := get_requests s @ [url]\<rparr>
      in case requests_get w url of
           ConnectionFailed \<Rightarrow> Some (Raised RequestException, s1)
         | Response status_code anchors \<Rightarrow> for_anchors w n url anchors s1 original_url)"
| "for_anchors w n url [] s original_url = Some (Returned, s)"
| "for_anchors w n url (None # anchors) s original_url = Some (Raised AttributeError, s)"
| "for_anchors w n url (Some href # anchors) s original_url =
     (if href_condition href then
        (case urljoin w url (split_hash_0 href) of
           Inl e \<Rightarrow> Some (Raised e, s)
         | Inr absolute_url \<Rightarrow>
             if startswith absolute_url original_url then
               if absolute_url \<notin> visited_urls s then
                 (case crawl_page w n absolute_url
                         (s\<lparr>child_urls := child_urls s @ [absolute_url]\<rparr>) original_url of
                    None \<Rightarrow> None
                  | Some (Raised e, s') \<Rightarrow> Some (Raised e, s')
                  | Some (Returned, s') \<Rightarrow> for_anchors w n url anchors s' original_url)
               else for_anchors w n url anchors s original_url
             else for_anchors w n url anchors s original_url)
      else for_anchors w n url anchors s original_url)"

text \<open>
  \<^verbatim>\<open>main\<close>: the start URL is read from the input, the traversal runs from the empty set and
  the empty list, and only then \<^verbatim>\<open>child_urls.csv\<close> is opened for writing. The file is a list
  of rows, each row a list of fields (\<open>None\<close>: no such file); \<open>csvfile\<close> is what it held
  before the run. When the traversal raises, \<^verbatim>\<open>main\<close> ends by that exception before the
  file is opened.
\<close>

definition initial_state :: crawl_state where
  "initial_state = \<lparr>visited_urls = {}, child_urls = [], get_requests = []\<rparr>"

definition main :: "world \<Rightarrow> nat \<Rightarrow> string \<Rightarrow> string list list option \<Rightarrow> (outcome \<times> string list list option) option" where
  "main w depth url csvfile =
     (case crawl_page w depth url initial_state url of
        None \<Rightarrow> None
      | Some (Raised e, s) \<Rightarrow> Some (Raised e, csvfile)
      | Some (Returned, s) \<Rightarrow>
          Some (Returned, Some ([''Child URLs''] # map (\<lambda>child_url. [child_url]) (child_urls s))))"

subsection \<open>Notions used to state the properties\<close>

text \<open>
  The two mutations of the state: entering a page (lines 20 and 23: the URL is added to
  \<^verbatim>\<open>visited_urls\<close>, then requested) and discovering a URL (line 45: it is appended to
  \<^verbatim>\<open>child_urls\<close>).
\<close>

definition visit :: "string \<Rightarrow> crawl_state \<Rightarrow> crawl_state" where
  "visit url s = s\<lparr>visited_urls := insert url (visited_urls s),
                    get_requests := get_requests s @ [url]\<rparr>"

definition discover :: "string \<Rightarrow> crawl_state \<Rightarrow> crawl_state" where
  "discover absolute_url s = s\<lparr>child_urls := child_urls s @ [absolute_url]\<rparr>"

text \<open>
  A set of URLs is closed under the links the crawler follows when every link of a page of
  the set that passes the condition of line 34 and resolves inside the scope leads to a URL
  of the set again. A finite link graph is a finite closed set that holds the start URL.
\<close>

definition links_closed :: "world \<Rightarrow> string \<Rightarrow> string set \<Rightarrow> bool" where
  "links_closed w original_url S \<longleftrightarrow>
     (\<forall>url \<in> S. \<forall>status_code anchors href absolute_url.
        requests_get w url = Response status_code anchors \<longrightarrow>
        Some href \<in> set anchors \<longrightarrow> href_condition href \<longrightarrow>
        urljoin w url (split_hash_0 href) = Inr absolute_url \<longrightarrow>
        startswith absolute_url original_url \<longrightarrow> absolute_url \<in> S)"

text \<open>
  A sequence of GET requests runs until a failure when none but the last of them raises,
  and the outcome is the exception of the request when the last one raises.
\<close>

definition until_failure :: "world \<Rightarrow> outcome \<Rightarrow> string list \<Rightarrow> bool" where
  "until_failure w out rs \<longleftrightarrow>
     (\<forall>u \<in> set (butlast rs). requests_get w u \<noteq> ConnectionFailed) \<and>
     (rs \<noteq> [] \<longrightarrow> requests_get w (last rs) = ConnectionFailed \<longrightarrow> out = Raised RequestException)"

subsection \<open>Example webs\<close>

text \<open>
  A web given by a table of its pages (the status code and the anchors of each; the GET of
  a URL that is not in the table raises), and a resolver for the examples: an absolute
  https URL resolves to itself, a root-relative path to the scheme and host of the base
  followed by the path. \<^verbatim>\<open>urljoin\<close> agrees with it on the hrefs of the examples below.
\<close>

type_synonym pages = "(string \<times> nat \<times> string option list) list"

definition table_get :: "pages \<Rightarrow> string \<Rightarrow> response" where
  "table_get pages url =
     (case map_of pages url of
        None \<Rightarrow> ConnectionFailed
      | Some (status_code, anchors) \<Rightarrow> Response status_code anchors)"

definition site_join :: "string \<Rightarrow> string \<Rightarrow> py_error + string" where
  "site_join base href =
     (if startswith href ''https://'' then Inr href
      else Inr (''https://'' @ takeWhile (\<lambda>c. c \<noteq> CHR ''/'') (drop 8 base) @ href))"

definition table_world :: "pages \<Rightarrow> world" where
  "table_world pages = \<lparr>requests_get = table_get pages, urljoin = site_join\<rparr>"

text \<open>The end-to-end scenario of the specification.\<close>

definition ex_com_pages :: pages where
  "ex_com_pages =
     [(''https://ex.com/'', 200, [Some ''/a'', Some ''https://ex.com/b'',
                                  Some ''https://other.com/c'', Some ''/a#dup'']),
      (''https://ex.com/a'', 200, []),
      (''https://ex.com/b'', 200, [])]"

text \<open>The same site when the GET of \<^verbatim>\<open>/a\<close> raises and \<^verbatim>\<open>/b\<close> answers 404 with a link.\<close>

definition failing_pages :: pages where
  "failing_pages =
     [(''https://ex.com/'', 200, [Some ''/a'', Some ''/b'']),
      (''https://ex.com/b'', 404, [Some ''/c'']),
      (''https://ex.com/c'', 200, [])]"

definition not_found_pages :: pages where
  "not_found_pages =
     [(''https://ex.com/'', 200, [Some ''/b'']),
      (''https://ex.com/b'', 404, [Some ''/c'']),
      (''https://ex.com/c'', 200, [])]"

text \<open>A page with an anchor that has no href attribute, as \<^verbatim>\<open><a name="top">\<close>.\<close>

definition named_anchor_pages :: pages where
  "named_anchor_pages =
     [(''https://ex.com/'', 200, [None, Some ''/a'']),
      (''https://ex.com/a'', 200, [])]"

text \<open>The graphs A \<open>\<rightarrow>\<close> [B, C], B \<open>\<rightarrow>\<close> [D] and A \<open>\<rightarrow>\<close> B \<open>\<rightarrow>\<close> A.\<close>

definition dfs_pages :: pages where
  "dfs_pages =
     [(''https://s.org/'', 200, [Some ''/b'', Some ''/c'']),
      (''https://s.org/b'', 200, [Some ''/d'']),
      (''https://s.org/c'', 200, []),
      (''https://s.org/d'', 200, [])]"

definition cycle_pages :: pages where
  "cycle_pages =
     [(''https://s.org/'', 200, [Some ''/b'']),
      (''https://s.org/b'', 200, [Some ''/''])]"

text \<open>Scope prefix \<^verbatim>\<open>https://site.com\<close>: a foreign host, and a host that extends the prefix.\<close>

definition site_com_pages :: pages where
  "site_com_pages =
     [(''https://site.com'', 200, [Some ''https://other.com/x'', Some ''https://site.com.evil.com'']),
      (''https://site.com.evil.com'', 200, [])]"

section \<open>Parsing the model's answer (analyze-reddit-topic.py)\<close>

text \<open>
  \<^verbatim>\<open>json.loads\<close> is a parameter: it gives the parsed value, or \<open>None\<close> when it raises
  JSONDecodeError. A JSON value is a Python dict, list, str, number, bool or None.
\<close>

datatype json =
    JObject "(string \<times> json) list"
  | JArray "json list"
  | JString string
  | JNumber int
  | JBool bool
  | JNull

text \<open>
  \<^verbatim>\<open>re.search(r'\{[\s\S]*\}', content, re.DOTALL)\<close>, then \<^verbatim>\<open>.group()\<close>: the search takes the
  leftmost opening brace; the star is greedy, so the match runs to the last closing brace
  after it. There is no match when no closing brace follows the first opening brace.
\<close>

definition re_search_braces :: "string \<Rightarrow> string option" where
  "re_search_braces content =
     (case dropWhile (\<lambda>c. c \<noteq> CHR ''{'') content of
        [] \<Rightarrow> None
      | brace # rest \<Rightarrow>
          (case rev (dropWhile (\<lambda>c. c \<noteq> CHR ''}'') (rev rest)) of
             [] \<Rightarrow> None
           | body \<Rightarrow> Some (brace # body)))"

text \<open>\<^verbatim>\<open>parse_openai_response(content)\<close>; the two \<^verbatim>\<open>print\<close> calls are left out.\<close>

definition parse_openai_response :: "(string \<Rightarrow> json option) \<Rightarrow> string \<Rightarrow> json" where
  "parse_openai_response json_loads content =
     (case json_loads content of
        Some parsed \<Rightarrow> parsed
      | None \<Rightarrow>
          (case re_search_braces content of
             Some json_match \<Rightarrow>
               (case json_loads json_match of
                  Some parsed \<Rightarrow> parsed
                | None \<Rightarrow> JObject [])
           | None \<Rightarrow> JObject []))"

fun is_dict :: "json \<Rightarrow> bool" where
  "is_dict (JObject _) = True"
| "is_dict _ = False"

text \<open>A loader for the examples: what \<^verbatim>\<open>json.loads\<close> gives on two inputs.\<close>

definition loads_example :: "string \<Rightarrow> json option" where
  "loads_example content =
     (if content = ''[1, 2]'' then Some (JArray [JNumber 1, JNumber 2])
      else if content = ''{}'' then Some (JObject [])
      else None)"

section \<open>Properties of the crawler\<close>

lemma startswith_refl: "startswith s s"
  by (simp add: startswith_def)

subsection \<open>Invariants and termination\<close>

text \<open>
  An invariant rule for the traversal. \<open>Pre\<close> is what holds of the state when a call of
  \<^verbatim>\<open>crawl_page\<close> starts, \<open>Inv\<close> what holds at every iteration of the loop. When entering a
  page turns \<open>Pre\<close> into \<open>Inv\<close>, and appending a new in-scope URL turns \<open>Inv\<close> into \<open>Pre\<close>
  for the call on that URL, then \<open>Inv\<close> holds of the state in which a call or a loop ends,
  by returning or by an exception.
\<close>

lemma crawl_page_Suc:
  "crawl_page w (Suc n) url s orig =
     (case requests_get w url of
        ConnectionFailed \<Rightarrow> Some (Raised RequestException, visit url s)
      | Response status_code anchors \<Rightarrow> for_anchors w n url anchors (visit url s) orig)"
  by (simp add: visit_def Let_def split: response.splits)

lemma crawl_invariant_rule:
  assumes enter: "\<And>orig url s. Pre orig url s \<Longrightarrow> Inv orig (visit url s)"
    and found: "\<And>orig u s. Inv orig s \<Longrightarrow> startswith u orig \<Longrightarrow> u \<notin> visited_urls s \<Longrightarrow> Pre orig u (discover u s)"
  shows "crawl_page w n url s orig = Some (out, s') \<Longrightarrow> Pre orig url s \<Longrightarrow> Inv orig s'"
    and "for_anchors w n url as s orig = Some (out, s') \<Longrightarrow> Inv orig s \<Longrightarrow> Inv orig s'"
proof (induction w n url s orig and w n url as s orig arbitrary: out s' and out s'
       rule: crawl_page_for_anchors.induct)
  case (1 w url s original_url)
  then show ?case by simp
next
  case (2 w n url s original_url)
  have inv1: "Inv original_url (visit url s)" using "2.prems"(2) by (rule enter)
  show ?case
  proof (cases "requests_get w url")
    case ConnectionFailed
    with "2.prems"(1) have "s' = visit url s" by (simp only: crawl_page_Suc response.case option.inject prod.inject)
    with inv1 show ?thesis by simp
  next
    case (Response status_code anchors)
    with "2.prems"(1) have "for_anchors w n url anchors (visit url s) original_url = Some (out, s')"
      by (simp only: crawl_page_Suc response.case)
    from "2.IH"[OF _ Response this] inv1 show ?thesis by (simp add: visit_def)
  qed
next
  case (3 w n url s original_url)
  then show ?case by simp
next
  case (4 w n url anchors s original_url)
  then show ?case by simp
next
  case (5 w n url href anchors s original_url)
  let ?cond = "href_condition href"
  show ?case
  proof (cases ?cond)
    case False
    with "5.prems"(1) have "for_anchors w n url anchors s original_url = Some (out, s')" by simp
    from "5.IH"(5)[OF False this "5.prems"(2)] show ?thesis .
  next
    case True
    show ?thesis
    proof (cases "urljoin w url (split_hash_0 href)")
      case (Inl e)
      with True "5.prems" show ?thesis by simp
    next
      case (Inr absolute_url)
      show ?thesis
      proof (cases "startswith absolute_url original_url")
        case out_of_scope: False
        with True Inr "5.prems"(1) have "for_anchors w n url anchors s original_url = Some (out, s')" by simp
        from "5.IH"(4)[OF True Inr out_of_scope this "5.prems"(2)] show ?thesis .
      next
        case in_scope: True
        show ?thesis
        proof (cases "absolute_url \<in> visited_urls s")
          case seen: True
          with True Inr in_scope "5.prems"(1) have "for_anchors w n url anchors s original_url = Some (out, s')" by simp
          from seen have "\<not> absolute_url \<notin> visited_urls s" by simp
          from "5.IH"(3)[OF True Inr in_scope this \<open>for_anchors w n url anchors s original_url = Some (out, s')\<close> "5.prems"(2)] show ?thesis .
        next
          case new: False
          have pre: "Pre original_url absolute_url (discover absolute_url s)"
            using "5.prems"(2) in_scope new by (rule found)
          from True Inr in_scope new "5.prems"(1)
          have run: "(case crawl_page w n absolute_url (discover absolute_url s) original_url of
                      None \<Rightarrow> None
                    | Some (Raised e, s') \<Rightarrow> Some (Raised e, s')
                    | Some (Returned, s') \<Rightarrow> for_anchors w n url anchors s' original_url) = Some (out, s')"
            by (simp add: discover_def)
          then obtain o1 s1 where c: "crawl_page w n absolute_url (discover absolute_url s) original_url = Some (o1, s1)"
            by (cases "crawl_page w n absolute_url (discover absolute_url s) original_url") auto
          have inv1: "Inv original_url s1"
            using "5.IH"(1)[OF True Inr in_scope new c[unfolded discover_def] pre[unfolded discover_def]] .
          show ?thesis
          proof (cases o1)
            case Returned
            with run c have "for_anchors w n url anchors s1 original_url = Some (out, s')" by simp
            from "5.IH"(2)[OF True Inr in_scope new c[unfolded discover_def] _ Returned this inv1] show ?thesis by simp
          next
            case (Raised e)
            with run c have "s' = s1" by simp
            with inv1 show ?thesis by simp
          qed
        qed
      qed
    qed
  qed
qed

text \<open>Instances of the invariant rule.\<close>

lemma child_urls_invariant:
  "crawl_page w n url s orig = Some (out, s') \<Longrightarrow>
     distinct (child_urls s) \<and> set (child_urls s) \<subseteq> insert url (visited_urls s) \<Longrightarrow>
     distinct (child_urls s') \<and> set (child_urls s') \<subseteq> visited_urls s'"
  "for_anchors w n url as s orig = Some (out, s') \<Longrightarrow>
     distinct (child_urls s) \<and> set (child_urls s) \<subseteq> visited_urls s \<Longrightarrow>
     distinct (child_urls s') \<and> set (child_urls s') \<subseteq> visited_urls s'"
proof -
  let ?Pre = "\<lambda>(orig::string) url s. distinct (child_urls s) \<and> set (child_urls s) \<subseteq> insert url (visited_urls s)"
  let ?Inv = "\<lambda>(orig::string) s. distinct (child_urls s) \<and> set (child_urls s) \<subseteq> visited_urls s"
  have enter: "\<And>orig url s. ?Pre orig url s \<Longrightarrow> ?Inv orig (visit url s)"
    by (simp add: visit_def)
  have found: "\<And>orig u s. ?Inv orig s \<Longrightarrow> startswith u orig \<Longrightarrow> u \<notin> visited_urls s \<Longrightarrow> ?Pre orig u (discover u s)"
    by (auto simp: discover_def)
  show "crawl_page w n url s orig = Some (out, s') \<Longrightarrow>
     distinct (child_urls s) \<and> set (child_urls s) \<subseteq> insert url (visited_urls s) \<Longrightarrow>
     distinct (child_urls s') \<and> set (child_urls s') \<subseteq> visited_urls s'"
    by (rule crawl_invariant_rule(1)[where Pre = ?Pre and Inv = ?Inv, OF enter found])
  show "for_anchors w n url as s orig = Some (out, s') \<Longrightarrow>
     distinct (child_urls s) \<and> set (child_urls s) \<subseteq> visited_urls s \<Longrightarrow>
     distinct (child_urls s') \<and> set (child_urls s') \<subseteq> visited_urls s'"
    by (rule crawl_invariant_rule(2)[where Pre = ?Pre and Inv = ?Inv, OF enter found])
qed

lemma child_urls_in_scope:
  "crawl_page w n url s orig = Some (out, s') \<Longrightarrow>
     (\<forall>u \<in> set (child_urls s). startswith u orig) \<Longrightarrow> (\<forall>u \<in> set (child_urls s'). startswith u orig)"
  "for_anchors w n url as s orig = Some (out, s') \<Longrightarrow>
     (\<forall>u \<in> set (child_urls s). startswith u orig) \<Longrightarrow> (\<forall>u \<in> set (child_urls s'). startswith u orig)"
proof -
  let ?Inv = "\<lambda>orig s. \<forall>u \<in> set (child_urls s). startswith u orig"
  let ?Pre = "\<lambda>orig (url::string) s. ?Inv orig s"
  have enter: "\<And>orig url s. ?Pre orig url s \<Longrightarrow> ?Inv orig (visit url s)"
    by (simp add: visit_def)
  have found: "\<And>orig u s. ?Inv orig s \<Longrightarrow> startswith u orig \<Longrightarrow> u \<notin> visited_urls s \<Longrightarrow> ?Pre orig u (discover u s)"
    by (auto simp: discover_def)
  show "crawl_page w n url s orig = Some (out, s') \<Longrightarrow>
     (\<forall>u \<in> set (child_urls s). startswith u orig) \<Longrightarrow> (\<forall>u \<in> set (child_urls s'). startswith u orig)"
    by (rule crawl_invariant_rule(1)[where Pre = ?Pre and Inv = ?Inv, OF enter found])
  show "for_anchors w n url as s orig = Some (out, s') \<Longrightarrow>
     (\<forall>u \<in> set (child_urls s). startswith u orig) \<Longrightarrow> (\<forall>u \<in> set (child_urls s'). startswith u orig)"
    by (rule crawl_invariant_rule(2)[where Pre = ?Pre and Inv = ?Inv, OF enter found])
qed

lemma child_urls_grow:
  "crawl_page w n url s orig = Some (out, s') \<Longrightarrow> prefix c0 (child_urls s) \<Longrightarrow> prefix c0 (child_urls s')"
  "for_anchors w n url as s orig = Some (out, s') \<Longrightarrow> prefix c0 (child_urls s) \<Longrightarrow> prefix c0 (child_urls s')"
proof -
  let ?Inv = "\<lambda>(orig::string) s. prefix c0 (child_urls s)"
  let ?Pre = "\<lambda>(orig::string) (url::string) s. prefix c0 (child_urls s)"
  have enter: "\<And>orig url s. ?Pre orig url s \<Longrightarrow> ?Inv orig (visit url s)"
    by (simp add: visit_def)
  have found: "\<And>orig u s. ?Inv orig s \<Longrightarrow> startswith u orig \<Longrightarrow> u \<notin> visited_urls s \<Longrightarrow> ?Pre orig u (discover u s)"
    by (simp add: discover_def)
  show "crawl_page w n url s orig = Some (out, s') \<Longrightarrow> prefix c0 (child_urls s) \<Longrightarrow> prefix c0 (child_urls s')"
    by (rule crawl_invariant_rule(1)[where Pre = ?Pre and Inv = ?Inv, OF enter found])
  show "for_anchors w n url as s orig = Some (out, s') \<Longrightarrow> prefix c0 (child_urls s) \<Longrightarrow> prefix c0 (child_urls s')"
    by (rule crawl_invariant_rule(2)[where Pre = ?Pre and Inv = ?Inv, OF enter found])
qed

lemma requests_invariant:
  "crawl_page w n url s orig = Some (out, s') \<Longrightarrow>
     url \<notin> visited_urls s \<and> distinct (get_requests s) \<and> set (get_requests s) = visited_urls s \<Longrightarrow>
     distinct (get_requests s') \<and> set (get_requests s') = visited_urls s'"
  "for_anchors w n url as s orig = Some (out, s') \<Longrightarrow>
     distinct (get_requests s) \<and> set (get_requests s) = visited_urls s \<Longrightarrow>
     distinct (get_requests s') \<and> set (get_requests s') = visited_urls s'"
proof -
  let ?Inv = "\<lambda>(orig::string) s. distinct (get_requests s) \<and> set (get_requests s) = visited_urls s"
  let ?Pre = "\<lambda>(orig::string) url s. url \<notin> visited_urls s \<and> distinct (get_requests s) \<and> set (get_requests s) = visited_urls s"
  have enter: "\<And>orig url s. ?Pre orig url s \<Longrightarrow> ?Inv orig (visit url s)"
    by (auto simp: visit_def)
  have found: "\<And>orig u s. ?Inv orig s \<Longrightarrow> startswith u orig \<Longrightarrow> u \<notin> visited_urls s \<Longrightarrow> ?Pre orig u (discover u s)"
    by (simp add: discover_def)
  show "crawl_page w n url s orig = Some (out, s') \<Longrightarrow>
     url \<notin> visited_urls s \<and> distinct (get_requests s) \<and> set (get_requests s) = visited_urls s \<Longrightarrow>
     distinct (get_requests s') \<and> set (get_requests s') = visited_urls s'"
    by (rule crawl_invariant_rule(1)[where Pre = ?Pre and Inv = ?Inv, OF enter found])
  show "for_anchors w n url as s orig = Some (out, s') \<Longrightarrow>
     distinct (get_requests s) \<and> set (get_requests s) = visited_urls s \<Longrightarrow>
     distinct (get_requests s') \<and> set (get_requests s') = visited_urls s'"
    by (rule crawl_invariant_rule(2)[where Pre = ?Pre and Inv = ?Inv, OF enter found])
qed

lemma visited_in_scope:
  "crawl_page w n url s orig = Some (out, s') \<Longrightarrow>
     (url = url0 \<or> startswith url orig) \<and> (\<forall>u \<in> visited_urls s. u = url0 \<or> startswith u orig) \<Longrightarrow>
     (\<forall>u \<in> visited_urls s'. u = url0 \<or> startswith u orig)"
proof -
  let ?Inv = "\<lambda>orig s. \<forall>u \<in> visited_urls s. u = url0 \<or> startswith u orig"
  let ?Pre = "\<lambda>orig url s. (url = url0 \<or> startswith url orig) \<and> (\<forall>u \<in> visited_urls s. u = url0 \<or> startswith u orig)"
  have enter: "\<And>orig url s. ?Pre orig url s \<Longrightarrow> ?Inv orig (visit url s)"
    by (auto simp: visit_def)
  have found: "\<And>orig u s. ?Inv orig s \<Longrightarrow> startswith u orig \<Longrightarrow> u \<notin> visited_urls s \<Longrightarrow> ?Pre orig u (discover u s)"
    by (simp add: discover_def)
  show "crawl_page w n url s orig = Some (out, s') \<Longrightarrow>
     (url = url0 \<or> startswith url orig) \<and> (\<forall>u \<in> visited_urls s. u = url0 \<or> startswith u orig) \<Longrightarrow>
     (\<forall>u \<in> visited_urls s'. u = url0 \<or> startswith u orig)"
    by (rule crawl_invariant_rule(1)[where Pre = ?Pre and Inv = ?Inv, OF enter found])
qed

lemma visited_urls_grow:
  "crawl_page w n url s orig = Some (out, s') \<Longrightarrow> V0 \<subseteq> insert url (visited_urls s) \<Longrightarrow> V0 \<subseteq> visited_urls s'"
  "for_anchors w n url as s orig = Some (out, s') \<Longrightarrow> V0 \<subseteq> visited_urls s \<Longrightarrow> V0 \<subseteq> visited_urls s'"
proof -
  let ?Inv = "\<lambda>(orig::string) s. V0 \<subseteq> visited_urls s"
  let ?Pre = "\<lambda>(orig::string) url s. V0 \<subseteq> insert url (visited_urls s)"
  have enter: "\<And>orig url s. ?Pre orig url s \<Longrightarrow> ?Inv orig (visit url s)"
    by (simp add: visit_def)
  have found: "\<And>orig u s. ?Inv orig s \<Longrightarrow> startswith u orig \<Longrightarrow> u \<notin> visited_urls s \<Longrightarrow> ?Pre orig u (discover u s)"
    by (auto simp: discover_def)
  show "crawl_page w n url s orig = Some (out, s') \<Longrightarrow> V0 \<subseteq> insert url (visited_urls s) \<Longrightarrow> V0 \<subseteq> visited_urls s'"
    by (rule crawl_invariant_rule(1)[where Pre = ?Pre and Inv = ?Inv, OF enter found])
  show "for_anchors w n url as s orig = Some (out, s') \<Longrightarrow> V0 \<subseteq> visited_urls s \<Longrightarrow> V0 \<subseteq> visited_urls s'"
    by (rule crawl_invariant_rule(2)[where Pre = ?Pre and Inv = ?Inv, OF enter found])
qed

text \<open>
  Termination: inside a finite set \<open>S\<close> of URLs closed under the links followed, a call on
  an unvisited URL of \<open>S\<close> ends when the depth bound is at least the number of URLs of \<open>S\<close>
  not visited yet, and it only adds to the visited URLs.
\<close>

lemma card_Diff_visit:
  assumes "finite S" "url \<in> S" "url \<notin> V" "card (S - V) \<le> Suc n"
  shows "card (S - insert url V) \<le> n"
proof -
  have "S - insert url V = (S - V) - {url}" by auto
  moreover have "url \<in> S - V" using assms by simp
  moreover have "finite (S - V)" using assms by simp
  ultimately show ?thesis using assms(4) by (simp add: card_Diff_singleton)
qed

lemma crawl_terminates:
  assumes fin: "finite S"
  shows "links_closed w orig S \<Longrightarrow> url \<in> S \<Longrightarrow> url \<notin> visited_urls s \<Longrightarrow>
           card (S - visited_urls s) \<le> n \<Longrightarrow>
           \<exists>out s'. crawl_page w n url s orig = Some (out, s') \<and> visited_urls s \<subseteq> visited_urls s'"
    and "links_closed w orig S \<Longrightarrow> url \<in> S \<Longrightarrow>
           (\<exists>status_code page. requests_get w url = Response status_code page \<and> set as \<subseteq> set page) \<Longrightarrow>
           card (S - visited_urls s) \<le> n \<Longrightarrow>
           \<exists>out s'. for_anchors w n url as s orig = Some (out, s') \<and> visited_urls s \<subseteq> visited_urls s'"
proof (induction w n url s orig and w n url as s orig
       rule: crawl_page_for_anchors.induct)
  case (1 w url s original_url)
  have "url \<in> S - visited_urls s" using 1 by simp
  moreover have "finite (S - visited_urls s)" using fin by simp
  ultimately have "card (S - visited_urls s) \<noteq> 0" by auto
  with "1.prems"(4) show ?case by simp
next
  case (2 w n url s original_url)
  have c: "card (S - visited_urls (visit url s)) \<le> n"
    using card_Diff_visit[OF fin "2.prems"(2,3,4)] by (simp add: visit_def)
  show ?case
  proof (cases "requests_get w url")
    case ConnectionFailed
    then show ?thesis by (auto simp: crawl_page_Suc visit_def)
  next
    case (Response status_code anchors)
    have "\<exists>out s'. for_anchors w n url anchors (visit url s) original_url = Some (out, s') \<and>
            visited_urls (visit url s) \<subseteq> visited_urls s'"
      using "2.IH"[OF _ Response "2.prems"(1,2)] Response c by (simp add: visit_def)
    then show ?thesis using Response by (auto simp: crawl_page_Suc visit_def)
  qed
next
  case (3 w n url s original_url)
  then show ?case by simp
next
  case (4 w n url anchors s original_url)
  then show ?case by simp
next
  case (5 w n url href anchors s original_url)
  from "5.prems"(3) obtain status_code page where
    page: "requests_get w url = Response status_code page" and sub: "set (Some href # anchors) \<subseteq> set page"
    by blast
  have rest: "\<exists>status_code page. requests_get w url = Response status_code page \<and> set anchors \<subseteq> set page"
    using page sub by auto
  show ?case
  proof (cases "href_condition href")
    case False
    from "5.IH"(5)[OF False "5.prems"(1,2) rest "5.prems"(4)] False show ?thesis by simp
  next
    case True
    show ?thesis
    proof (cases "urljoin w url (split_hash_0 href)")
      case (Inl e)
      with True show ?thesis by simp
    next
      case (Inr absolute_url)
      show ?thesis
      proof (cases "startswith absolute_url original_url")
        case out_of_scope: False
        from "5.IH"(4)[OF True Inr out_of_scope "5.prems"(1,2) rest "5.prems"(4)] True Inr out_of_scope
        show ?thesis by simp
      next
        case in_scope: True
        show ?thesis
        proof (cases "absolute_url \<in> visited_urls s")
          case seen: True
          then have ns: "\<not> absolute_url \<notin> visited_urls s" by simp
          from "5.IH"(3)[OF True Inr in_scope ns "5.prems"(1,2) rest "5.prems"(4)] True Inr in_scope seen
          show ?thesis by simp
        next
          case new: False
          have inS: "absolute_url \<in> S"
            using "5.prems"(1,2) page sub True Inr in_scope unfolding links_closed_def by auto
          have "\<exists>out s'. crawl_page w n absolute_url (s\<lparr>child_urls := child_urls s @ [absolute_url]\<rparr>) original_url = Some (out, s')
                  \<and> visited_urls (s\<lparr>child_urls := child_urls s @ [absolute_url]\<rparr>) \<subseteq> visited_urls s'"
            using "5.IH"(1)[OF True Inr in_scope new "5.prems"(1) inS] new "5.prems"(4) by simp
          then obtain o1 s1 where
            c: "crawl_page w n absolute_url (s\<lparr>child_urls := child_urls s @ [absolute_url]\<rparr>) original_url = Some (o1, s1)"
            and mono: "visited_urls s \<subseteq> visited_urls s1" by auto
          show ?thesis
          proof (cases o1)
            case (Raised e)
            with c mono True Inr in_scope new show ?thesis by simp
          next
            case Returned
            have "S - visited_urls s1 \<subseteq> S - visited_urls s" using mono by auto
            then have "card (S - visited_urls s1) \<le> card (S - visited_urls s)"
              using fin by (intro card_mono) auto
            then have le: "card (S - visited_urls s1) \<le> n" using "5.prems"(4) by simp
            from "5.IH"(2)[OF True Inr in_scope new c _ Returned "5.prems"(1,2) rest le]
            obtain out s' where
              f: "for_anchors w n url anchors s1 original_url = Some (out, s')" and m2: "visited_urls s1 \<subseteq> visited_urls s'"
              by auto
            have "for_anchors w n url (Some href # anchors) s original_url = Some (out, s')"
              using True Inr in_scope new c Returned f by simp
            moreover have "visited_urls s \<subseteq> visited_urls s'" using mono m2 by blast
            ultimately show ?thesis by blast
          qed
        qed
      qed
    qed
  qed
qed

subsection \<open>One iteration of the loop\<close>

text \<open>An anchor that passes line 34 and resolves: to a new in-scope URL, or not.\<close>

lemma for_anchors_new:
  assumes "href_condition href" "urljoin w url (split_hash_0 href) = Inr u"
    "startswith u orig" "u \<notin> visited_urls s"
  shows "for_anchors w n url (Some href # anchors) s orig =
           (case crawl_page w n u (discover u s) orig of
              None \<Rightarrow> None
            | Some (Raised e, s') \<Rightarrow> Some (Raised e, s')
            | Some (Returned, s') \<Rightarrow> for_anchors w n url anchors s' orig)"
  using assms by (simp add: discover_def)

lemma for_anchors_skip:
  assumes "href_condition href" "urljoin w url (split_hash_0 href) = Inr u"
    "\<not> startswith u orig \<or> u \<in> visited_urls s"
  shows "for_anchors w n url (Some href # anchors) s orig = for_anchors w n url anchors s orig"
  using assms by auto

lemma for_anchors_new_result:
  assumes c: "href_condition href" "urljoin w url (split_hash_0 href) = Inr u"
    "startswith u orig" "u \<notin> visited_urls s"
    and run: "for_anchors w n url (Some href # anchors) s orig = Some (out, s2)"
  shows "\<exists>o1 s1. crawl_page w n u (discover u s) orig = Some (o1, s1)
           \<and> prefix (child_urls s @ [u]) (child_urls s1) \<and> prefix (child_urls s1) (child_urls s2)
           \<and> (case o1 of Returned \<Rightarrow> for_anchors w n url anchors s1 orig = Some (out, s2)
                | Raised e \<Rightarrow> out = Raised e \<and> s2 = s1)"
proof -
  from run have r: "(case crawl_page w n u (discover u s) orig of
              None \<Rightarrow> None
            | Some (Raised e, s') \<Rightarrow> Some (Raised e, s')
            | Some (Returned, s') \<Rightarrow> for_anchors w n url anchors s' orig) = Some (out, s2)"
    by (simp only: for_anchors_new[OF c])
  then obtain o1 s1 where cr: "crawl_page w n u (discover u s) orig = Some (o1, s1)"
    by (cases "crawl_page w n u (discover u s) orig") auto
  have p1: "prefix (child_urls s @ [u]) (child_urls s1)"
    using child_urls_grow(1)[OF cr, of "child_urls s @ [u]"] by (simp add: discover_def)
  show ?thesis
  proof (cases o1)
    case Returned
    with r cr have f: "for_anchors w n url anchors s1 orig = Some (out, s2)" by simp
    have "prefix (child_urls s1) (child_urls s2)"
      using child_urls_grow(2)[OF f, of "child_urls s1"] by simp
    with cr p1 f Returned show ?thesis by simp
  next
    case (Raised e)
    with r cr have "out = Raised e \<and> s2 = s1" by auto
    with cr p1 Raised show ?thesis by simp
  qed
qed

subsection \<open>Requests up to a failure\<close>

lemma until_failure_Nil: "until_failure w out []"
  by (simp add: until_failure_def)

lemma until_failure_Returned:
  "until_failure w Returned rs \<Longrightarrow> u \<in> set rs \<Longrightarrow> requests_get w u \<noteq> ConnectionFailed"
  by (cases rs rule: rev_cases) (auto simp: until_failure_def)

lemma until_failure_append:
  assumes "until_failure w Returned rs1" "until_failure w out rs2"
  shows "until_failure w out (rs1 @ rs2)"
proof (cases "rs2 = []")
  case True
  with assms until_failure_Returned[OF assms(1)] show ?thesis
    by (cases rs1 rule: rev_cases) (auto simp: until_failure_def)
next
  case False
  with assms until_failure_Returned[OF assms(1)] show ?thesis
    by (auto simp: until_failure_def butlast_append)
qed

lemma until_failure_Cons:
  assumes "requests_get w url \<noteq> ConnectionFailed" "until_failure w out rs"
  shows "until_failure w out (url # rs)"
  using assms by (auto simp: until_failure_def)

lemma requests_until_failure:
  "crawl_page w n url s orig = Some (out, s') \<Longrightarrow>
     \<exists>rs. get_requests s' = get_requests s @ rs \<and> until_failure w out rs"
  "for_anchors w n url as s orig = Some (out, s') \<Longrightarrow>
     \<exists>rs. get_requests s' = get_requests s @ rs \<and> until_failure w out rs"
proof (induction w n url s orig and w n url as s orig arbitrary: out s' and out s'
       rule: crawl_page_for_anchors.induct)
  case (1 w url s original_url)
  then show ?case by simp
next
  case (2 w n url s original_url)
  show ?case
  proof (cases "requests_get w url")
    case ConnectionFailed
    with "2.prems" have "out = Raised RequestException" "s' = visit url s"
      by (simp_all add: visit_def)
    with ConnectionFailed have "get_requests s' = get_requests s @ [url] \<and> until_failure w out [url]"
      by (simp add: visit_def until_failure_def)
    then show ?thesis by blast
  next
    case (Response status_code anchors)
    with "2.prems" have run: "for_anchors w n url anchors (visit url s) original_url = Some (out, s')"
      by (simp add: visit_def)
    from "2.IH"[OF _ Response run[unfolded visit_def]] obtain rs where
      rs: "get_requests s' = get_requests (visit url s) @ rs" "until_failure w out rs"
      by (auto simp: visit_def)
    have "requests_get w url \<noteq> ConnectionFailed" using Response by simp
    then have "until_failure w out (url # rs)" using rs(2) by (rule until_failure_Cons)
    moreover have "get_requests s' = get_requests s @ (url # rs)" using rs(1) by (simp add: visit_def)
    ultimately show ?thesis by blast
  qed
next
  case (3 w n url s original_url)
  then have "get_requests s' = get_requests s @ [] \<and> until_failure w out []"
    by (simp add: until_failure_Nil)
  then show ?case by blast
next
  case (4 w n url anchors s original_url)
  then have "get_requests s' = get_requests s @ [] \<and> until_failure w out []"
    by (simp add: until_failure_Nil)
  then show ?case by blast
next
  case (5 w n url href anchors s original_url)
  show ?case
  proof (cases "href_condition href")
    case False
    with "5.prems" have "for_anchors w n url anchors s original_url = Some (out, s')" by simp
    from "5.IH"(5)[OF False this] show ?thesis .
  next
    case True
    show ?thesis
    proof (cases "urljoin w url (split_hash_0 href)")
      case (Inl e)
      with True "5.prems" have "get_requests s' = get_requests s @ [] \<and> until_failure w out []"
        by (simp add: until_failure_Nil)
      then show ?thesis by blast
    next
      case (Inr absolute_url)
      show ?thesis
      proof (cases "startswith absolute_url original_url")
        case out_of_scope: False
        with True Inr "5.prems" have "for_anchors w n url anchors s original_url = Some (out, s')" by simp
        from "5.IH"(4)[OF True Inr out_of_scope this] show ?thesis .
      next
        case in_scope: True
        show ?thesis
        proof (cases "absolute_url \<in> visited_urls s")
          case seen: True
          with True Inr in_scope "5.prems" have f: "for_anchors w n url anchors s original_url = Some (out, s')" by simp
          from seen have "\<not> absolute_url \<notin> visited_urls s" by simp
          from "5.IH"(3)[OF True Inr in_scope this f] show ?thesis .
        next
          case new: False
          from True Inr in_scope new "5.prems"
          have run: "(case crawl_page w n absolute_url (s\<lparr>child_urls := child_urls s @ [absolute_url]\<rparr>) original_url of
                      None \<Rightarrow> None
                    | Some (Raised e, s') \<Rightarrow> Some (Raised e, s')
                    | Some (Returned, s') \<Rightarrow> for_anchors w n url anchors s' original_url) = Some (out, s')"
            by simp
          then obtain o1 s1 where c: "crawl_page w n absolute_url (s\<lparr>child_urls := child_urls s @ [absolute_url]\<rparr>) original_url = Some (o1, s1)"
            by (cases "crawl_page w n absolute_url (s\<lparr>child_urls := child_urls s @ [absolute_url]\<rparr>) original_url") auto
          from "5.IH"(1)[OF True Inr in_scope new c] obtain rs1 where
            rs1: "get_requests s1 = get_requests s @ rs1" "until_failure w o1 rs1" by auto
          show ?thesis
          proof (cases o1)
            case (Raised e)
            with run c have "out = o1" "s' = s1" by simp_all
            with rs1 show ?thesis by blast
          next
            case Returned
            with run c have f: "for_anchors w n url anchors s1 original_url = Some (out, s')" by simp
            from "5.IH"(2)[OF True Inr in_scope new c _ Returned f] obtain rs2 where
              rs2: "get_requests s' = get_requests s1 @ rs2" "until_failure w out rs2" by auto
            have "until_failure w out (rs1 @ rs2)"
              using rs1(2) rs2(2) Returned by (simp add: until_failure_append)
            moreover have "get_requests s' = get_requests s @ (rs1 @ rs2)" using rs1(1) rs2(1) by simp
            ultimately show ?thesis by blast
          qed
        qed
      qed
    qed
  qed
qed

lemma failed_request_ends_traversal:
  assumes run: "crawl_page w n url s orig = Some (out, s')"
    and u: "u \<in> set (get_requests s')" "u \<notin> set (get_requests s)"
    and down: "requests_get w u = ConnectionFailed"
  shows "out = Raised RequestException \<and> last (get_requests s') = u"
proof -
  from requests_until_failure(1)[OF run] obtain rs where
    rs: "get_requests s' = get_requests s @ rs" "until_failure w out rs" by blast
  from u rs(1) have in_rs: "u \<in> set rs" by auto
  then have ne: "rs \<noteq> []" by auto
  then have split: "rs = butlast rs @ [last rs]" by simp
  have "u \<notin> set (butlast rs)" using rs(2) down by (auto simp: until_failure_def)
  with in_rs split have "u = last rs" by (metis Un_iff empty_iff empty_set insert_iff list.simps(15) set_append)
  with rs ne down show ?thesis by (auto simp: until_failure_def)
qed

subsection \<open>The example webs, evaluated\<close>

lemma table_world_simps:
  "requests_get (table_world pages) = table_get pages"
  "urljoin (table_world pages) = site_join"
  by (simp_all add: table_world_def)

lemmas crawl_eval =
  table_world_simps table_get_def site_join_def initial_state_def href_condition_def
  startswith_def split_hash_0_def

lemma ex_com_crawl:
  "crawl_page (table_world ex_com_pages) 2 ''https://ex.com/'' initial_state ''https://ex.com/'' =
     Some (Returned,
       \<lparr>visited_urls = {''https://ex.com/b'', ''https://ex.com/a'', ''https://ex.com/''},
        child_urls = [''https://ex.com/a'', ''https://ex.com/b''],
        get_requests = [''https://ex.com/'', ''https://ex.com/a'', ''https://ex.com/b'']\<rparr>)"
  by (simp add: numeral_2_eq_2 crawl_eval ex_com_pages_def)

lemma site_com_crawl:
  "crawl_page (table_world site_com_pages) 2 ''https://site.com'' initial_state ''https://site.com'' =
     Some (Returned,
       \<lparr>visited_urls = {''https://site.com.evil.com'', ''https://site.com''},
        child_urls = [''https://site.com.evil.com''],
        get_requests = [''https://site.com'', ''https://site.com.evil.com'']\<rparr>)"
  by (simp add: numeral_2_eq_2 crawl_eval site_com_pages_def)

lemma failing_crawl:
  "crawl_page (table_world failing_pages) 3 ''https://ex.com/'' initial_state ''https://ex.com/'' =
     Some (Raised RequestException,
       \<lparr>visited_urls = {''https://ex.com/a'', ''https://ex.com/''},
        child_urls = [''https://ex.com/a''],
        get_requests = [''https://ex.com/'', ''https://ex.com/a'']\<rparr>)"
  by (simp add: numeral_3_eq_3 crawl_eval failing_pages_def)

lemma cycle_pages_closed:
  "links_closed (table_world cycle_pages) ''https://s.org/'' {''https://s.org/'', ''https://s.org/b''}"
  unfolding links_closed_def
  by (auto simp: crawl_eval cycle_pages_def split: if_splits)

subsection \<open>The claims about the crawler\<close>

text \<open>
  C1 (as amended): a GET that raises is not caught. The call of \<^verbatim>\<open>crawl_page\<close> for that URL
  ends by the exception, with the URL marked visited and requested once and nothing else
  changed; an exception out of a nested \<^verbatim>\<open>crawl_page\<close> ends the loop of the calling page
  at once, the later sibling anchors unprocessed; and \<^verbatim>\<open>main\<close> ends by the exception
  without writing the file. A response is processed whatever its status code. Over a whole
  traversal: when the GET of a URL requested in it raises, the traversal ends by that
  exception and this request is the last one sent.
\<close>

theorem failed_get_aborts_traversal:
  "(requests_get w url = ConnectionFailed
    \<longrightarrow> crawl_page w (Suc n) url s original_url = Some (Raised RequestException, visit url s))
   \<and> (href_condition href \<and> urljoin w url (split_hash_0 href) = Inr u \<and> startswith u original_url
      \<and> u \<notin> visited_urls s
      \<and> crawl_page w n u (discover u s) original_url = Some (Raised e, s')
    \<longrightarrow> for_anchors w n url (Some href # anchors) s original_url = Some (Raised e, s'))
   \<and> (crawl_page w n url initial_state url = Some (Raised e, s')
    \<longrightarrow> main w n url csvfile = Some (Raised e, csvfile))
   \<and> (requests_get w url = Response status_code anchors
    \<longrightarrow> crawl_page w (Suc n) url s original_url = for_anchors w n url anchors (visit url s) original_url)
   \<and> (crawl_page w n url s original_url = Some (out, s') \<and> u \<in> set (get_requests s')
      \<and> u \<notin> set (get_requests s) \<and> requests_get w u = ConnectionFailed
    \<longrightarrow> out = Raised RequestException \<and> last (get_requests s') = u)"
proof -
  have raised: "requests_get w url = ConnectionFailed
    \<longrightarrow> crawl_page w (Suc n) url s original_url = Some (Raised RequestException, visit url s)"
    by (simp add: visit_def)
  have propagates: "href_condition href \<and> urljoin w url (split_hash_0 href) = Inr u \<and> startswith u original_url
      \<and> u \<notin> visited_urls s
      \<and> crawl_page w n u (discover u s) original_url = Some (Raised e, s')
    \<longrightarrow> for_anchors w n url (Some href # anchors) s original_url = Some (Raised e, s')"
    by (simp add: discover_def)
  have aborts: "crawl_page w n url initial_state url = Some (Raised e, s')
    \<longrightarrow> main w n url csvfile = Some (Raised e, csvfile)"
    by (simp add: main_def)
  have status: "requests_get w url = Response status_code anchors
    \<longrightarrow> crawl_page w (Suc n) url s original_url = for_anchors w n url anchors (visit url s) original_url"
    by (simp add: visit_def)
  have last_request: "crawl_page w n url s original_url = Some (out, s') \<and> u \<in> set (get_requests s')
      \<and> u \<notin> set (get_requests s) \<and> requests_get w u = ConnectionFailed
    \<longrightarrow> out = Raised RequestException \<and> last (get_requests s') = u"
    using failed_request_ends_traversal[of w n url s original_url out s' u] by blast
  show ?thesis by (intro conjI raised propagates aborts status last_request)
qed

theorem failed_get_aborts_traversal_witness:
  "requests_get (table_world failing_pages) ''https://ex.com/a'' = ConnectionFailed
   \<and> crawl_page (table_world failing_pages) 2 ''https://ex.com/a''
        (discover ''https://ex.com/a'' (visit ''https://ex.com/'' initial_state)) ''https://ex.com/''
      = Some (Raised RequestException,
              visit ''https://ex.com/a'' (discover ''https://ex.com/a'' (visit ''https://ex.com/'' initial_state)))
   \<and> for_anchors (table_world failing_pages) 2 ''https://ex.com/'' [Some ''/a'', Some ''/b'']
        (visit ''https://ex.com/'' initial_state) ''https://ex.com/''
      = Some (Raised RequestException,
              visit ''https://ex.com/a'' (discover ''https://ex.com/a'' (visit ''https://ex.com/'' initial_state)))
   \<and> main (table_world failing_pages) 3 ''https://ex.com/'' (Some [[''stale'']])
      = Some (Raised RequestException, Some [[''stale'']])
   \<and> last [''https://ex.com/'', ''https://ex.com/a''] = ''https://ex.com/a''
   \<and> crawl_page (table_world not_found_pages) (Suc 1) ''https://ex.com/b''
        (discover ''https://ex.com/b'' (visit ''https://ex.com/'' initial_state)) ''https://ex.com/''
      = for_anchors (table_world not_found_pages) 1 ''https://ex.com/b'' [Some ''/c'']
          (visit ''https://ex.com/b'' (discover ''https://ex.com/b'' (visit ''https://ex.com/'' initial_state)))
          ''https://ex.com/''"
proof -
  let ?w = "table_world failing_pages"
  let ?s = "visit ''https://ex.com/'' initial_state"
  have down: "requests_get ?w ''https://ex.com/a'' = ConnectionFailed"
    by (simp add: crawl_eval failing_pages_def)
  have 1: "crawl_page ?w (Suc (Suc 0)) ''https://ex.com/a'' (discover ''https://ex.com/a'' ?s) ''https://ex.com/''
      = Some (Raised RequestException, visit ''https://ex.com/a'' (discover ''https://ex.com/a'' ?s))"
    using failed_get_aborts_traversal[THEN conjunct1, THEN mp, OF down] .
  then have c1: "crawl_page ?w 2 ''https://ex.com/a'' (discover ''https://ex.com/a'' ?s) ''https://ex.com/''
      = Some (Raised RequestException, visit ''https://ex.com/a'' (discover ''https://ex.com/a'' ?s))"
    by (simp only: numeral_2_eq_2)
  have hyp: "href_condition ''/a''
      \<and> urljoin ?w ''https://ex.com/'' (split_hash_0 ''/a'') = Inr ''https://ex.com/a''
      \<and> startswith ''https://ex.com/a'' ''https://ex.com/''
      \<and> ''https://ex.com/a'' \<notin> visited_urls ?s
      \<and> crawl_page ?w 2 ''https://ex.com/a'' (discover ''https://ex.com/a'' ?s) ''https://ex.com/''
          = Some (Raised RequestException, visit ''https://ex.com/a'' (discover ''https://ex.com/a'' ?s))"
    using c1 by (simp add: crawl_eval visit_def)
  have 2: "for_anchors ?w 2 ''https://ex.com/'' [Some ''/a'', Some ''/b''] ?s ''https://ex.com/''
      = Some (Raised RequestException, visit ''https://ex.com/a'' (discover ''https://ex.com/a'' ?s))"
    using failed_get_aborts_traversal[THEN conjunct2, THEN conjunct1, THEN mp, OF hyp] .
  have 3: "main ?w 3 ''https://ex.com/'' (Some [[''stale'']]) = Some (Raised RequestException, Some [[''stale'']])"
    using failed_get_aborts_traversal[THEN conjunct2, THEN conjunct2, THEN conjunct1, THEN mp, OF failing_crawl] .
  have hyp5: "crawl_page ?w 3 ''https://ex.com/'' initial_state ''https://ex.com/'' =
       Some (Raised RequestException,
         \<lparr>visited_urls = {''https://ex.com/a'', ''https://ex.com/''},
          child_urls = [''https://ex.com/a''],
          get_requests = [''https://ex.com/'', ''https://ex.com/a'']\<rparr>)
     \<and> ''https://ex.com/a'' \<in> set (get_requests
         \<lparr>visited_urls = {''https://ex.com/a'', ''https://ex.com/''},
          child_urls = [''https://ex.com/a''],
          get_requests = [''https://ex.com/'', ''https://ex.com/a'']\<rparr>)
     \<and> ''https://ex.com/a'' \<notin> set (get_requests initial_state)
     \<and> requests_get ?w ''https://ex.com/a'' = ConnectionFailed"
    using failing_crawl down by (simp add: initial_state_def)
  have 5: "last [''https://ex.com/'', ''https://ex.com/a''] = ''https://ex.com/a''"
    using failed_get_aborts_traversal[THEN conjunct2, THEN conjunct2, THEN conjunct2, THEN conjunct2,
            THEN mp, OF hyp5] by simp
  have not_found: "requests_get (table_world not_found_pages) ''https://ex.com/b'' = Response 404 [Some ''/c'']"
    by (simp add: crawl_eval not_found_pages_def)
  have 4: "crawl_page (table_world not_found_pages) (Suc 1) ''https://ex.com/b''
        (discover ''https://ex.com/b'' ?s) ''https://ex.com/''
      = for_anchors (table_world not_found_pages) 1 ''https://ex.com/b'' [Some ''/c'']
          (visit ''https://ex.com/b'' (discover ''https://ex.com/b'' ?s)) ''https://ex.com/''"
    using failed_get_aborts_traversal[THEN conjunct2, THEN conjunct2, THEN conjunct2, THEN conjunct1,
            THEN mp, OF not_found] .
  from down c1 2 3 5 4 show ?thesis by (intro conjI)
qed

text \<open>
  C1 as the specification states it fails: the root page links to \<^verbatim>\<open>/a\<close> and \<^verbatim>\<open>/b\<close> and
  the GET of \<^verbatim>\<open>/a\<close> raises. The traversal does not go on to the sibling \<^verbatim>\<open>/b\<close>: it ends
  by the exception, \<^verbatim>\<open>/b\<close> is never requested, and \<^verbatim>\<open>main\<close> writes no file. And a page
  answered with status 404 is explored further: its link \<^verbatim>\<open>/c\<close> is discovered.
\<close>

theorem failed_get_counterexample:
  "crawl_page (table_world failing_pages) 3 ''https://ex.com/'' initial_state ''https://ex.com/'' =
     Some (Raised RequestException,
       \<lparr>visited_urls = {''https://ex.com/a'', ''https://ex.com/''},
        child_urls = [''https://ex.com/a''],
        get_requests = [''https://ex.com/'', ''https://ex.com/a'']\<rparr>)
   \<and> main (table_world failing_pages) 3 ''https://ex.com/'' None = Some (Raised RequestException, None)
   \<and> crawl_page (table_world not_found_pages) 3 ''https://ex.com/'' initial_state ''https://ex.com/'' =
     Some (Returned,
       \<lparr>visited_urls = {''https://ex.com/c'', ''https://ex.com/b'', ''https://ex.com/''},
        child_urls = [''https://ex.com/b'', ''https://ex.com/c''],
        get_requests = [''https://ex.com/'', ''https://ex.com/b'', ''https://ex.com/c'']\<rparr>)"
  by (simp add: main_def numeral_3_eq_3 crawl_eval failing_pages_def not_found_pages_def)

text \<open>
  C2 (the code differs): an anchor without an href attribute is not skipped. The loop ends
  there by AttributeError, whatever follows it on the page, while the empty href and
  \<^verbatim>\<open>javascript:void(0)\<close> are skipped without an error and a root-relative href is resolved.
\<close>

theorem missing_href_raises:
  "for_anchors w n url (None # anchors) s original_url = Some (Raised AttributeError, s)
   \<and> for_anchors w n url (Some [] # anchors) s original_url = for_anchors w n url anchors s original_url
   \<and> for_anchors w n url (Some ''javascript:void(0)'' # anchors) s original_url
        = for_anchors w n url anchors s original_url
   \<and> crawl_page (table_world named_anchor_pages) 2 ''https://ex.com/'' initial_state ''https://ex.com/''
        = Some (Raised AttributeError,
            \<lparr>visited_urls = {''https://ex.com/''}, child_urls = [], get_requests = [''https://ex.com/'']\<rparr>)"
  by (simp add: numeral_2_eq_2 crawl_eval named_anchor_pages_def)

text \<open>
  C3: in the end-to-end scenario (start URL \<^verbatim>\<open>https://ex.com/\<close>, whose page links to
  \<^verbatim>\<open>/a\<close>, \<^verbatim>\<open>https://ex.com/b\<close>, \<^verbatim>\<open>https://other.com/c\<close> and \<^verbatim>\<open>/a#dup\<close>, the pages of
  \<^verbatim>\<open>/a\<close> and \<^verbatim>\<open>/b\<close> without links, the three hrefs resolved as \<^verbatim>\<open>urljoin\<close> resolves them)
  the traversal returns with the discovered list \<^verbatim>\<open>[https://ex.com/a, https://ex.com/b]\<close>:
  the foreign link is left out, \<^verbatim>\<open>/a#dup\<close> is cut to \<^verbatim>\<open>/a\<close> and found visited, and the
  start URL is not in the list. This holds at every depth bound of at least 2.
\<close>

theorem end_to_end_scenario:
  assumes "requests_get w ''https://ex.com/'' =
             Response status_root [Some ''/a'', Some ''https://ex.com/b'',
                                   Some ''https://other.com/c'', Some ''/a#dup'']"
    and "requests_get w ''https://ex.com/a'' = Response status_a []"
    and "requests_get w ''https://ex.com/b'' = Response status_b []"
    and "urljoin w ''https://ex.com/'' ''/a'' = Inr ''https://ex.com/a''"
    and "urljoin w ''https://ex.com/'' ''https://ex.com/b'' = Inr ''https://ex.com/b''"
    and "urljoin w ''https://ex.com/'' ''https://other.com/c'' = Inr ''https://other.com/c''"
  shows "crawl_page w (Suc (Suc n)) ''https://ex.com/'' initial_state ''https://ex.com/'' =
           Some (Returned,
             \<lparr>visited_urls = {''https://ex.com/b'', ''https://ex.com/a'', ''https://ex.com/''},
              child_urls = [''https://ex.com/a'', ''https://ex.com/b''],
              get_requests = [''https://ex.com/'', ''https://ex.com/a'', ''https://ex.com/b'']\<rparr>)"
  using assms
  by (simp add: initial_state_def href_condition_def startswith_def split_hash_0_def)

theorem end_to_end_scenario_witness:
  "crawl_page (table_world ex_com_pages) (Suc (Suc 0)) ''https://ex.com/'' initial_state ''https://ex.com/'' =
     Some (Returned,
       \<lparr>visited_urls = {''https://ex.com/b'', ''https://ex.com/a'', ''https://ex.com/''},
        child_urls = [''https://ex.com/a'', ''https://ex.com/b''],
        get_requests = [''https://ex.com/'', ''https://ex.com/a'', ''https://ex.com/b'']\<rparr>)"
  by (rule end_to_end_scenario[where status_root = 200 and status_a = 200 and status_b = 200])
     (simp_all add: crawl_eval ex_com_pages_def)

text \<open>
  C4: the traversal is depth first, in pre-order, siblings in document order. When an
  anchor resolves to a new in-scope URL, the loop runs \<^verbatim>\<open>crawl_page\<close> on it before the
  next sibling: the list at the end of the loop is the list before the anchor, then the
  URL, then what its own traversal discovered, then what the later siblings discovered
  (and when its traversal raises, the later siblings are not processed). In the graph
  A \<open>\<rightarrow>\<close> [B, C], B \<open>\<rightarrow>\<close> [D] the discovered list is [B, D, C].
\<close>

theorem depth_first_preorder:
  "(href_condition href \<and> urljoin w url (split_hash_0 href) = Inr u \<and> startswith u original_url
      \<and> u \<notin> visited_urls s
      \<and> for_anchors w n url (Some href # anchors) s original_url = Some (out, s2)
    \<longrightarrow> (\<exists>o1 s1. crawl_page w n u (discover u s) original_url = Some (o1, s1)
           \<and> prefix (child_urls s @ [u]) (child_urls s1) \<and> prefix (child_urls s1) (child_urls s2)
           \<and> (case o1 of Returned \<Rightarrow> for_anchors w n url anchors s1 original_url = Some (out, s2)
                | Raised e \<Rightarrow> out = Raised e \<and> s2 = s1)))
   \<and> (requests_get w A = Response status_a [Some href_b, Some href_c]
      \<and> requests_get w B = Response status_b [Some href_d]
      \<and> requests_get w C = Response status_c [] \<and> requests_get w D = Response status_d []
      \<and> href_condition href_b \<and> href_condition href_c \<and> href_condition href_d
      \<and> urljoin w A (split_hash_0 href_b) = Inr B \<and> urljoin w A (split_hash_0 href_c) = Inr C
      \<and> urljoin w B (split_hash_0 href_d) = Inr D
      \<and> startswith B A \<and> startswith C A \<and> startswith D A \<and> distinct [A, B, C, D]
    \<longrightarrow> crawl_page w (Suc (Suc (Suc m))) A initial_state A =
          Some (Returned, \<lparr>visited_urls = {C, D, B, A}, child_urls = [B, D, C],
                           get_requests = [A, B, D, C]\<rparr>))"
proof -
  have step: "href_condition href \<and> urljoin w url (split_hash_0 href) = Inr u \<and> startswith u original_url
      \<and> u \<notin> visited_urls s
      \<and> for_anchors w n url (Some href # anchors) s original_url = Some (out, s2)
    \<longrightarrow> (\<exists>o1 s1. crawl_page w n u (discover u s) original_url = Some (o1, s1)
           \<and> prefix (child_urls s @ [u]) (child_urls s1) \<and> prefix (child_urls s1) (child_urls s2)
           \<and> (case o1 of Returned \<Rightarrow> for_anchors w n url anchors s1 original_url = Some (out, s2)
                | Raised e \<Rightarrow> out = Raised e \<and> s2 = s1))"
    using for_anchors_new_result[of href w url u original_url s n anchors out s2] by blast
  have graph: "requests_get w A = Response status_a [Some href_b, Some href_c]
      \<and> requests_get w B = Response status_b [Some href_d]
      \<and> requests_get w C = Response status_c [] \<and> requests_get w D = Response status_d []
      \<and> href_condition href_b \<and> href_condition href_c \<and> href_condition href_d
      \<and> urljoin w A (split_hash_0 href_b) = Inr B \<and> urljoin w A (split_hash_0 href_c) = Inr C
      \<and> urljoin w B (split_hash_0 href_d) = Inr D
      \<and> startswith B A \<and> startswith C A \<and> startswith D A \<and> distinct [A, B, C, D]
    \<longrightarrow> crawl_page w (Suc (Suc (Suc m))) A initial_state A =
          Some (Returned, \<lparr>visited_urls = {C, D, B, A}, child_urls = [B, D, C],
                           get_requests = [A, B, D, C]\<rparr>)"
  proof
    assume h: "requests_get w A = Response status_a [Some href_b, Some href_c]
      \<and> requests_get w B = Response status_b [Some href_d]
      \<and> requests_get w C = Response status_c [] \<and> requests_get w D = Response status_d []
      \<and> href_condition href_b \<and> href_condition href_c \<and> href_condition href_d
      \<and> urljoin w A (split_hash_0 href_b) = Inr B \<and> urljoin w A (split_hash_0 href_c) = Inr C
      \<and> urljoin w B (split_hash_0 href_d) = Inr D
      \<and> startswith B A \<and> startswith C A \<and> startswith D A \<and> distinct [A, B, C, D]"
    then have ne: "B \<noteq> A" "C \<noteq> A" "D \<noteq> A" "C \<noteq> B" "D \<noteq> B" "C \<noteq> D" by auto
    from h ne show "crawl_page w (Suc (Suc (Suc m))) A initial_state A =
          Some (Returned, \<lparr>visited_urls = {C, D, B, A}, child_urls = [B, D, C],
                           get_requests = [A, B, D, C]\<rparr>)"
      by (simp add: initial_state_def)
  qed
  show ?thesis by (intro conjI step graph)
qed

theorem depth_first_preorder_witness:
  "(\<exists>o1 s1. crawl_page (table_world dfs_pages) 2 ''https://s.org/b''
                (discover ''https://s.org/b'' (visit ''https://s.org/'' initial_state)) ''https://s.org/''
              = Some (o1, s1)
            \<and> prefix (child_urls (visit ''https://s.org/'' initial_state) @ [''https://s.org/b'']) (child_urls s1)
            \<and> prefix (child_urls s1) [''https://s.org/b'', ''https://s.org/d'', ''https://s.org/c''])
   \<and> crawl_page (table_world dfs_pages) 3 ''https://s.org/'' initial_state ''https://s.org/'' =
       Some (Returned,
         \<lparr>visited_urls = {''https://s.org/c'', ''https://s.org/d'', ''https://s.org/b'', ''https://s.org/''},
          child_urls = [''https://s.org/b'', ''https://s.org/d'', ''https://s.org/c''],
          get_requests = [''https://s.org/'', ''https://s.org/b'', ''https://s.org/d'', ''https://s.org/c'']\<rparr>)"
proof -
  let ?final = "\<lparr>visited_urls = {''https://s.org/c'', ''https://s.org/d'', ''https://s.org/b'', ''https://s.org/''},
          child_urls = [''https://s.org/b'', ''https://s.org/d'', ''https://s.org/c''],
          get_requests = [''https://s.org/'', ''https://s.org/b'', ''https://s.org/d'', ''https://s.org/c'']\<rparr>"
  have loop: "href_condition ''/b''
      \<and> urljoin (table_world dfs_pages) ''https://s.org/'' (split_hash_0 ''/b'') = Inr ''https://s.org/b''
      \<and> startswith ''https://s.org/b'' ''https://s.org/''
      \<and> ''https://s.org/b'' \<notin> visited_urls (visit ''https://s.org/'' initial_state)
      \<and> for_anchors (table_world dfs_pages) 2 ''https://s.org/'' (Some ''/b'' # [Some ''/c''])
            (visit ''https://s.org/'' initial_state) ''https://s.org/'' = Some (Returned, ?final)"
    by (simp add: numeral_2_eq_2 crawl_eval visit_def dfs_pages_def)
  have 1: "\<exists>o1 s1. crawl_page (table_world dfs_pages) 2 ''https://s.org/b''
                (discover ''https://s.org/b'' (visit ''https://s.org/'' initial_state)) ''https://s.org/''
              = Some (o1, s1)
            \<and> prefix (child_urls (visit ''https://s.org/'' initial_state) @ [''https://s.org/b'']) (child_urls s1)
            \<and> prefix (child_urls s1) [''https://s.org/b'', ''https://s.org/d'', ''https://s.org/c'']"
    using depth_first_preorder[THEN conjunct1, rule_format, OF loop] by auto
  have 2: "crawl_page (table_world dfs_pages) (Suc (Suc (Suc 0))) ''https://s.org/'' initial_state ''https://s.org/'' =
     Some (Returned, ?final)"
    by (rule depth_first_preorder[THEN conjunct2, rule_format,
          where status_a = 200 and status_b = 200 and status_c = 200 and status_d = 200
            and href_b = "''/b''" and href_c = "''/c''" and href_d = "''/d''"])
       (simp add: crawl_eval dfs_pages_def)
  from 1 2 show ?thesis by (simp only: numeral_3_eq_3 simp_thms)
qed

text \<open>
  C5: on every finite link graph the traversal terminates, cycles or not: when a finite
  set of URLs holds the start URL and is closed under the links the crawler follows, the
  traversal ends (by returning or by an exception) within a nesting depth of the size of
  the set. It does because a URL enters \<^verbatim>\<open>visited_urls\<close> before it is requested and a
  visited URL is never crawled again: at the end of every traversal the requests sent are
  exactly the visited URLs, each requested once. In the graph A \<open>\<rightarrow>\<close> B \<open>\<rightarrow>\<close> A the traversal
  returns with the discovered list [B].
\<close>

theorem cycle_safe_termination:
  "(finite S \<and> links_closed w original_url S \<and> url \<in> S \<and> card S \<le> n
    \<longrightarrow> (\<exists>out s'. crawl_page w n url initial_state original_url = Some (out, s')))
   \<and> (crawl_page w n url initial_state original_url = Some (out, s')
    \<longrightarrow> distinct (get_requests s') \<and> set (get_requests s') = visited_urls s')
   \<and> (requests_get w A = Response status_a [Some href_b]
      \<and> requests_get w B = Response status_b [Some href_a]
      \<and> href_condition href_b \<and> href_condition href_a
      \<and> urljoin w A (split_hash_0 href_b) = Inr B \<and> urljoin w B (split_hash_0 href_a) = Inr A
      \<and> startswith B A \<and> A \<noteq> B
    \<longrightarrow> crawl_page w (Suc (Suc m)) A initial_state A =
          Some (Returned, \<lparr>visited_urls = {B, A}, child_urls = [B], get_requests = [A, B]\<rparr>))"
proof -
  have terminates: "finite S \<and> links_closed w original_url S \<and> url \<in> S \<and> card S \<le> n
    \<longrightarrow> (\<exists>out s'. crawl_page w n url initial_state original_url = Some (out, s'))"
  proof
    assume h: "finite S \<and> links_closed w original_url S \<and> url \<in> S \<and> card S \<le> n"
    then have "card (S - visited_urls initial_state) \<le> n" by (simp add: initial_state_def)
    moreover have "url \<notin> visited_urls initial_state" by (simp add: initial_state_def)
    ultimately show "\<exists>out s'. crawl_page w n url initial_state original_url = Some (out, s')"
      using crawl_terminates(1)[of S w original_url url initial_state n] h by blast
  qed
  have once: "crawl_page w n url initial_state original_url = Some (out, s')
    \<longrightarrow> distinct (get_requests s') \<and> set (get_requests s') = visited_urls s'"
  proof
    assume "crawl_page w n url initial_state original_url = Some (out, s')"
    from requests_invariant(1)[OF this]
    show "distinct (get_requests s') \<and> set (get_requests s') = visited_urls s'"
      by (simp add: initial_state_def)
  qed
  have cycle: "requests_get w A = Response status_a [Some href_b]
      \<and> requests_get w B = Response status_b [Some href_a]
      \<and> href_condition href_b \<and> href_condition href_a
      \<and> urljoin w A (split_hash_0 href_b) = Inr B \<and> urljoin w B (split_hash_0 href_a) = Inr A
      \<and> startswith B A \<and> A \<noteq> B
    \<longrightarrow> crawl_page w (Suc (Suc m)) A initial_state A =
          Some (Returned, \<lparr>visited_urls = {B, A}, child_urls = [B], get_requests = [A, B]\<rparr>)"
  proof
    assume h: "requests_get w A = Response status_a [Some href_b]
      \<and> requests_get w B = Response status_b [Some href_a]
      \<and> href_condition href_b \<and> href_condition href_a
      \<and> urljoin w A (split_hash_0 href_b) = Inr B \<and> urljoin w B (split_hash_0 href_a) = Inr A
      \<and> startswith B A \<and> A \<noteq> B"
    then have "B \<noteq> A" by auto
    with h show "crawl_page w (Suc (Suc m)) A initial_state A =
          Some (Returned, \<lparr>visited_urls = {B, A}, child_urls = [B], get_requests = [A, B]\<rparr>)"
      by (simp add: initial_state_def startswith_refl)
  qed
  show ?thesis by (intro conjI terminates once cycle)
qed

theorem cycle_safe_termination_witness:
  "finite {''https://s.org/'', ''https://s.org/b''}
   \<and> links_closed (table_world cycle_pages) ''https://s.org/'' {''https://s.org/'', ''https://s.org/b''}
   \<and> card {''https://s.org/'', ''https://s.org/b''} \<le> (2::nat)
   \<and> (\<exists>out s'. crawl_page (table_world cycle_pages) 2 ''https://s.org/'' initial_state ''https://s.org/''
         = Some (out, s'))
   \<and> crawl_page (table_world cycle_pages) 2 ''https://s.org/'' initial_state ''https://s.org/'' =
       Some (Returned, \<lparr>visited_urls = {''https://s.org/b'', ''https://s.org/''},
                        child_urls = [''https://s.org/b''],
                        get_requests = [''https://s.org/'', ''https://s.org/b'']\<rparr>)
   \<and> distinct [''https://s.org/'', ''https://s.org/b'']"
proof -
  let ?S = "{''https://s.org/'', ''https://s.org/b''}"
  let ?final = "\<lparr>visited_urls = {''https://s.org/b'', ''https://s.org/''},
                        child_urls = [''https://s.org/b''],
                        get_requests = [''https://s.org/'', ''https://s.org/b'']\<rparr>"
  have hyp: "finite ?S \<and> links_closed (table_world cycle_pages) ''https://s.org/'' ?S
      \<and> ''https://s.org/'' \<in> ?S \<and> card ?S \<le> (2::nat)"
    using cycle_pages_closed by simp
  have 1: "\<exists>out s'. crawl_page (table_world cycle_pages) 2 ''https://s.org/'' initial_state ''https://s.org/''
         = Some (out, s')"
    using cycle_safe_termination[THEN conjunct1, rule_format, OF hyp] .
  have 3: "crawl_page (table_world cycle_pages) (Suc (Suc 0)) ''https://s.org/'' initial_state ''https://s.org/'' =
       Some (Returned, ?final)"
    by (rule cycle_safe_termination[THEN conjunct2, THEN conjunct2, rule_format,
          where status_a = 200 and status_b = 200 and href_b = "''/b''" and href_a = "''/''"])
       (simp add: crawl_eval cycle_pages_def)
  then have c3: "crawl_page (table_world cycle_pages) 2 ''https://s.org/'' initial_state ''https://s.org/'' =
       Some (Returned, ?final)" by (simp only: numeral_2_eq_2)
  have 2: "distinct (get_requests ?final) \<and> set (get_requests ?final) = visited_urls ?final"
    using cycle_safe_termination[THEN conjunct2, THEN conjunct1, rule_format, OF c3] .
  from hyp 1 c3 2 show ?thesis by simp
qed

text \<open>
  C6: no URL is twice in the discovered list. Every call of \<^verbatim>\<open>crawl_page\<close> and every run of
  its loop, started in a state whose list has no duplicates and holds only visited URLs
  (for \<^verbatim>\<open>crawl_page\<close>: visited URLs and the URL about to be visited), ends (by returning or
  by an exception) in such a state again, so \<open>len(child_urls) = len(set(child_urls))\<close> there;
  the traversal of \<^verbatim>\<open>main\<close> starts in such a state. The two steps behind it: an anchor
  that resolves to a visited URL changes nothing, and a URL appended to the list is
  visited by the call that follows.
\<close>

theorem discovered_list_has_no_duplicates:
  "(crawl_page w n url s original_url = Some (out, s')
      \<and> distinct (child_urls s) \<and> set (child_urls s) \<subseteq> insert url (visited_urls s)
    \<longrightarrow> length (child_urls s') = card (set (child_urls s')) \<and> set (child_urls s') \<subseteq> visited_urls s')
   \<and> (for_anchors w n url anchors s original_url = Some (out, s')
      \<and> distinct (child_urls s) \<and> set (child_urls s) \<subseteq> visited_urls s
    \<longrightarrow> length (child_urls s') = card (set (child_urls s')) \<and> set (child_urls s') \<subseteq> visited_urls s')
   \<and> (crawl_page w n url initial_state original_url = Some (out, s')
    \<longrightarrow> length (child_urls s') = card (set (child_urls s')))
   \<and> (href_condition href \<and> urljoin w url (split_hash_0 href) = Inr u \<and> u \<in> visited_urls s
    \<longrightarrow> for_anchors w n url (Some href # anchors) s original_url
          = for_anchors w n url anchors s original_url)
   \<and> (crawl_page w n u (discover u s) original_url = Some (out, s') \<longrightarrow> u \<in> visited_urls s')"
proof -
  have call: "crawl_page w n url s original_url = Some (out, s')
      \<and> distinct (child_urls s) \<and> set (child_urls s) \<subseteq> insert url (visited_urls s)
    \<longrightarrow> length (child_urls s') = card (set (child_urls s')) \<and> set (child_urls s') \<subseteq> visited_urls s'"
    using child_urls_invariant(1)[of w n url s original_url out s']
    by (simp add: distinct_card)
  have loop: "for_anchors w n url anchors s original_url = Some (out, s')
      \<and> distinct (child_urls s) \<and> set (child_urls s) \<subseteq> visited_urls s
    \<longrightarrow> length (child_urls s') = card (set (child_urls s')) \<and> set (child_urls s') \<subseteq> visited_urls s'"
    using child_urls_invariant(2)[of w n url anchors s original_url out s']
    by (simp add: distinct_card)
  have run: "crawl_page w n url initial_state original_url = Some (out, s')
    \<longrightarrow> length (child_urls s') = card (set (child_urls s'))"
    using child_urls_invariant(1)[of w n url initial_state original_url out s']
    by (simp add: distinct_card initial_state_def)
  have seen: "href_condition href \<and> urljoin w url (split_hash_0 href) = Inr u \<and> u \<in> visited_urls s
    \<longrightarrow> for_anchors w n url (Some href # anchors) s original_url
          = for_anchors w n url anchors s original_url"
    using for_anchors_skip[of href w url u original_url s n anchors] by blast
  have entered: "crawl_page w n u (discover u s) original_url = Some (out, s') \<longrightarrow> u \<in> visited_urls s'"
    using visited_urls_grow(1)[of w n u "discover u s" original_url out s' "{u}"] by simp
  show ?thesis by (intro conjI call loop run seen entered)
qed

theorem discovered_list_has_no_duplicates_witness:
  "crawl_page (table_world ex_com_pages) 2 ''https://ex.com/'' initial_state ''https://ex.com/'' =
     Some (Returned,
       \<lparr>visited_urls = {''https://ex.com/b'', ''https://ex.com/a'', ''https://ex.com/''},
        child_urls = [''https://ex.com/a'', ''https://ex.com/b''],
        get_requests = [''https://ex.com/'', ''https://ex.com/a'', ''https://ex.com/b'']\<rparr>)
   \<and> length [''https://ex.com/a'', ''https://ex.com/b''] = card (set [''https://ex.com/a'', ''https://ex.com/b''])
   \<and> set [''https://ex.com/a'', ''https://ex.com/b'']
        \<subseteq> {''https://ex.com/b'', ''https://ex.com/a'', ''https://ex.com/''}
   \<and> for_anchors (table_world ex_com_pages) 1 ''https://ex.com/'' [Some ''/a#dup'']
        \<lparr>visited_urls = {''https://ex.com/a'', ''https://ex.com/''},
         child_urls = [''https://ex.com/a''],
         get_requests = [''https://ex.com/'', ''https://ex.com/a'']\<rparr> ''https://ex.com/''
      = Some (Returned,
        \<lparr>visited_urls = {''https://ex.com/a'', ''https://ex.com/''},
         child_urls = [''https://ex.com/a''],
         get_requests = [''https://ex.com/'', ''https://ex.com/a'']\<rparr>)
   \<and> ''https://ex.com/a'' \<in> {''https://ex.com/a'', ''https://ex.com/''}"
proof -
  let ?w = "table_world ex_com_pages"
  let ?root = "''https://ex.com/''"
  let ?final = "\<lparr>visited_urls = {''https://ex.com/b'', ''https://ex.com/a'', ''https://ex.com/''},
        child_urls = [''https://ex.com/a'', ''https://ex.com/b''],
        get_requests = [''https://ex.com/'', ''https://ex.com/a'', ''https://ex.com/b'']\<rparr>"
  let ?mid = "\<lparr>visited_urls = {''https://ex.com/a'', ''https://ex.com/''},
         child_urls = [''https://ex.com/a''],
         get_requests = [''https://ex.com/'', ''https://ex.com/a'']\<rparr>"
  note this_claim = discovered_list_has_no_duplicates
  have call: "crawl_page ?w 2 ?root initial_state ?root = Some (Returned, ?final)
      \<and> distinct (child_urls initial_state)
      \<and> set (child_urls initial_state) \<subseteq> insert ?root (visited_urls initial_state)"
    using ex_com_crawl by (simp add: initial_state_def)
  have 1: "length (child_urls ?final) = card (set (child_urls ?final))
           \<and> set (child_urls ?final) \<subseteq> visited_urls ?final"
    using this_claim[THEN conjunct1, THEN mp, OF call] .
  have loop: "for_anchors ?w 1 ?root
        [Some ''/a'', Some ''https://ex.com/b'', Some ''https://other.com/c'', Some ''/a#dup'']
        (visit ?root initial_state) ?root = Some (Returned, ?final)
      \<and> distinct (child_urls (visit ?root initial_state))
      \<and> set (child_urls (visit ?root initial_state)) \<subseteq> visited_urls (visit ?root initial_state)"
    by (simp add: crawl_eval visit_def ex_com_pages_def)
  have 2: "length (child_urls ?final) = card (set (child_urls ?final))
           \<and> set (child_urls ?final) \<subseteq> visited_urls ?final"
    using this_claim[THEN conjunct2, THEN conjunct1, THEN mp, OF loop] .
  have 3: "length (child_urls ?final) = card (set (child_urls ?final))"
    using this_claim[THEN conjunct2, THEN conjunct2, THEN conjunct1, THEN mp, OF ex_com_crawl] .
  have seen: "href_condition ''/a#dup''
      \<and> urljoin ?w ?root (split_hash_0 ''/a#dup'') = Inr ''https://ex.com/a''
      \<and> ''https://ex.com/a'' \<in> visited_urls ?mid"
    by (simp add: crawl_eval)
  have 4: "for_anchors ?w 1 ?root (Some ''/a#dup'' # []) ?mid ?root = for_anchors ?w 1 ?root [] ?mid ?root"
    using this_claim[THEN conjunct2, THEN conjunct2, THEN conjunct2, THEN conjunct1, THEN mp, OF seen] .
  have entered: "crawl_page ?w 1 ''https://ex.com/a'' (discover ''https://ex.com/a'' (visit ?root initial_state)) ?root
      = Some (Returned, ?mid)"
    by (simp add: crawl_eval visit_def discover_def ex_com_pages_def)
  have 5: "''https://ex.com/a'' \<in> visited_urls ?mid"
    using this_claim[THEN conjunct2, THEN conjunct2, THEN conjunct2, THEN conjunct2, THEN mp, OF entered] .
  from ex_com_crawl 1 2 3 4 5 show ?thesis by simp
qed

text \<open>
  C7: the scope is a literal prefix test on the resolved URL. Every URL of the discovered
  list starts, character by character, with \<^verbatim>\<open>original_url\<close>; a resolved URL that does
  not is skipped with the state unchanged, and one that does (and is not visited yet) is
  in the list at the end of the loop. So under the prefix \<^verbatim>\<open>https://site.com\<close> the URL
  \<^verbatim>\<open>https://other.com/x\<close> is never in the list, while \<^verbatim>\<open>https://site.com.evil.com\<close>
  passes the test and is discovered when a page links to it.
\<close>

theorem scope_is_literal_prefix:
  "(crawl_page w n url initial_state original_url = Some (out, s')
    \<longrightarrow> (\<forall>u \<in> set (child_urls s'). \<exists>rest. u = original_url @ rest))
   \<and> (href_condition href \<and> urljoin w url (split_hash_0 href) = Inr u \<and> \<not> startswith u original_url
    \<longrightarrow> for_anchors w n url (Some href # anchors) s original_url
          = for_anchors w n url anchors s original_url)
   \<and> (href_condition href \<and> urljoin w url (split_hash_0 href) = Inr u \<and> startswith u original_url
      \<and> u \<notin> visited_urls s
      \<and> for_anchors w n url (Some href # anchors) s original_url = Some (out, s')
    \<longrightarrow> u \<in> set (child_urls s'))
   \<and> (startswith u original_url \<longleftrightarrow> take (length original_url) u = original_url)
   \<and> (crawl_page w n ''https://site.com'' initial_state ''https://site.com'' = Some (out, s')
    \<longrightarrow> ''https://other.com/x'' \<notin> set (child_urls s'))
   \<and> startswith ''https://site.com.evil.com'' ''https://site.com''
   \<and> crawl_page (table_world site_com_pages) 2 ''https://site.com'' initial_state ''https://site.com'' =
       Some (Returned,
         \<lparr>visited_urls = {''https://site.com.evil.com'', ''https://site.com''},
          child_urls = [''https://site.com.evil.com''],
          get_requests = [''https://site.com'', ''https://site.com.evil.com'']\<rparr>)"
proof -
  have in_scope: "crawl_page w n url initial_state orig = Some (out, s')
    \<longrightarrow> (\<forall>u \<in> set (child_urls s'). startswith u orig)" for url orig
    using child_urls_in_scope(1)[of w n url initial_state orig out s']
    by (simp add: initial_state_def)
  have all: "crawl_page w n url initial_state original_url = Some (out, s')
    \<longrightarrow> (\<forall>u \<in> set (child_urls s'). \<exists>rest. u = original_url @ rest)"
    using in_scope[of url original_url] by (auto simp: startswith_def prefix_def)
  have rejected: "href_condition href \<and> urljoin w url (split_hash_0 href) = Inr u \<and> \<not> startswith u original_url
    \<longrightarrow> for_anchors w n url (Some href # anchors) s original_url
          = for_anchors w n url anchors s original_url"
    using for_anchors_skip[of href w url u original_url s n anchors] by blast
  have accepted: "href_condition href \<and> urljoin w url (split_hash_0 href) = Inr u \<and> startswith u original_url
      \<and> u \<notin> visited_urls s
      \<and> for_anchors w n url (Some href # anchors) s original_url = Some (out, s')
    \<longrightarrow> u \<in> set (child_urls s')"
  proof
    assume h: "href_condition href \<and> urljoin w url (split_hash_0 href) = Inr u \<and> startswith u original_url
      \<and> u \<notin> visited_urls s
      \<and> for_anchors w n url (Some href # anchors) s original_url = Some (out, s')"
    then have c: "href_condition href" "urljoin w url (split_hash_0 href) = Inr u"
      "startswith u original_url" "u \<notin> visited_urls s"
      and run: "for_anchors w n url (Some href # anchors) s original_url = Some (out, s')"
      by blast+
    from for_anchors_new_result[OF c run] obtain s1 :: crawl_state
      where "prefix (child_urls s @ [u]) (child_urls s1)" "prefix (child_urls s1) (child_urls s')"
      by blast
    then have "prefix (child_urls s @ [u]) (child_urls s')" by (rule prefix_order.trans)
    then have "set (child_urls s @ [u]) \<subseteq> set (child_urls s')" by (rule set_mono_prefix)
    then show "u \<in> set (child_urls s')" by simp
  qed
  have literal: "startswith u original_url \<longleftrightarrow> take (length original_url) u = original_url"
    unfolding startswith_def by (metis append_eq_conv_conj prefix_def)
  have other: "crawl_page w n ''https://site.com'' initial_state ''https://site.com'' = Some (out, s')
    \<longrightarrow> ''https://other.com/x'' \<notin> set (child_urls s')"
  proof
    assume "crawl_page w n ''https://site.com'' initial_state ''https://site.com'' = Some (out, s')"
    with in_scope[of "''https://site.com''" "''https://site.com''"]
    have "\<forall>u \<in> set (child_urls s'). startswith u ''https://site.com''" by simp
    moreover have "\<not> startswith ''https://other.com/x'' ''https://site.com''"
      by (simp add: startswith_def)
    ultimately show "''https://other.com/x'' \<notin> set (child_urls s')" by blast
  qed
  have evil: "startswith ''https://site.com.evil.com'' ''https://site.com''"
    by (simp add: startswith_def)
  show ?thesis by (intro conjI all rejected accepted literal other evil site_com_crawl)
qed

theorem scope_is_literal_prefix_witness:
  "crawl_page (table_world site_com_pages) 2 ''https://site.com'' initial_state ''https://site.com'' =
       Some (Returned,
         \<lparr>visited_urls = {''https://site.com.evil.com'', ''https://site.com''},
          child_urls = [''https://site.com.evil.com''],
          get_requests = [''https://site.com'', ''https://site.com.evil.com'']\<rparr>)
   \<and> (\<exists>rest. ''https://site.com.evil.com'' = ''https://site.com'' @ rest)
   \<and> ''https://other.com/x'' \<notin> set [''https://site.com.evil.com'']
   \<and> \<not> startswith ''https://other.com/x'' ''https://site.com''
   \<and> for_anchors (table_world site_com_pages) 1 ''https://site.com''
         [Some ''https://other.com/x'', Some ''https://site.com.evil.com'']
         (visit ''https://site.com'' initial_state) ''https://site.com''
       = for_anchors (table_world site_com_pages) 1 ''https://site.com''
         [Some ''https://site.com.evil.com'']
         (visit ''https://site.com'' initial_state) ''https://site.com''
   \<and> ''https://site.com.evil.com'' \<in> set [''https://site.com.evil.com'']"
proof -
  let ?w = "table_world site_com_pages"
  let ?site = "''https://site.com''"
  let ?evil = "''https://site.com.evil.com''"
  let ?other = "''https://other.com/x''"
  let ?final = "\<lparr>visited_urls = {''https://site.com.evil.com'', ''https://site.com''},
          child_urls = [''https://site.com.evil.com''],
          get_requests = [''https://site.com'', ''https://site.com.evil.com'']\<rparr>"
  note this_claim = scope_is_literal_prefix
  have 1: "\<forall>u \<in> set (child_urls ?final). \<exists>rest. u = ?site @ rest"
    using this_claim[THEN conjunct1, THEN mp, OF site_com_crawl] .
  have out_of_scope: "href_condition ?other \<and> urljoin ?w ?site (split_hash_0 ?other) = Inr ?other
      \<and> \<not> startswith ?other ?site"
    by (simp add: crawl_eval)
  have 2: "for_anchors ?w 1 ?site (Some ?other # [Some ?evil]) (visit ?site initial_state) ?site
         = for_anchors ?w 1 ?site [Some ?evil] (visit ?site initial_state) ?site"
    using this_claim[THEN conjunct2, THEN conjunct1, THEN mp, OF out_of_scope] .
  have in_scope: "href_condition ?evil \<and> urljoin ?w ?site (split_hash_0 ?evil) = Inr ?evil
      \<and> startswith ?evil ?site \<and> ?evil \<notin> visited_urls (visit ?site initial_state)
      \<and> for_anchors ?w 1 ?site (Some ?evil # []) (visit ?site initial_state) ?site = Some (Returned, ?final)"
    by (simp add: crawl_eval visit_def site_com_pages_def)
  have 3: "?evil \<in> set (child_urls ?final)"
    using this_claim[THEN conjunct2, THEN conjunct2, THEN conjunct1, THEN mp, OF in_scope] .
  have 5: "?other \<notin> set (child_urls ?final)"
    using this_claim[THEN conjunct2, THEN conjunct2, THEN conjunct2, THEN conjunct2, THEN conjunct1, THEN mp,
            OF site_com_crawl] .
  from site_com_crawl 1 2 3 5 out_of_scope show ?thesis by simp
qed

text \<open>
  C8: the result is written once, after the traversal. When the traversal returns,
  \<^verbatim>\<open>main\<close> leaves in \<^verbatim>\<open>child_urls.csv\<close> the header row \<^verbatim>\<open>Child URLs\<close> followed by one
  single-field row per discovered URL, in the order of the list, whatever the file held
  before. When the traversal raises, \<^verbatim>\<open>main\<close> ends by the exception and the file is as
  it was.
\<close>

theorem csv_written_after_traversal:
  "(crawl_page w n url initial_state url = Some (Returned, s)
    \<longrightarrow> main w n url csvfile =
          Some (Returned, Some ([''Child URLs''] # map (\<lambda>child_url. [child_url]) (child_urls s))))
   \<and> (crawl_page w n url initial_state url = Some (Raised e, s)
    \<longrightarrow> main w n url csvfile = Some (Raised e, csvfile))
   \<and> (crawl_page w n url initial_state url = None \<longrightarrow> main w n url csvfile = None)"
  by (simp add: main_def)

theorem csv_written_after_traversal_witness:
  "main (table_world ex_com_pages) 2 ''https://ex.com/'' (Some [[''stale'', ''row'']]) =
     Some (Returned, Some [[''Child URLs''], [''https://ex.com/a''], [''https://ex.com/b'']])
   \<and> main (table_world failing_pages) 3 ''https://ex.com/'' (Some [[''stale'', ''row'']]) =
     Some (Raised RequestException, Some [[''stale'', ''row'']])
   \<and> main (table_world ex_com_pages) 0 ''https://ex.com/'' (Some [[''stale'', ''row'']]) = None"
proof -
  note this_claim = csv_written_after_traversal
  have 1: "main (table_world ex_com_pages) 2 ''https://ex.com/'' (Some [[''stale'', ''row'']]) =
     Some (Returned, Some [[''Child URLs''], [''https://ex.com/a''], [''https://ex.com/b'']])"
    using this_claim[THEN conjunct1, THEN mp, OF ex_com_crawl, of "Some [[''stale'', ''row'']]"] by simp
  have 2: "main (table_world failing_pages) 3 ''https://ex.com/'' (Some [[''stale'', ''row'']]) =
     Some (Raised RequestException, Some [[''stale'', ''row'']])"
    using this_claim[THEN conjunct2, THEN conjunct1, THEN mp, OF failing_crawl] .
  have "crawl_page (table_world ex_com_pages) 0 ''https://ex.com/'' initial_state ''https://ex.com/'' = None"
    by simp
  from this_claim[THEN conjunct2, THEN conjunct2, THEN mp, OF this]
  have 3: "main (table_world ex_com_pages) 0 ''https://ex.com/'' (Some [[''stale'', ''row'']]) = None" .
  from 1 2 3 show ?thesis by (intro conjI)
qed

text \<open>
  C9: \<^verbatim>\<open>visited_urls\<close> only ever holds the start URL and URLs that passed the scope test.
  At the end of a traversal (by returning or by an exception) every visited URL is the
  start URL or starts with \<^verbatim>\<open>original_url\<close>, and so is every URL a GET request was sent
  for: a URL outside the scope is neither marked visited nor fetched.
\<close>

theorem visited_only_in_scope:
  assumes "crawl_page w n url initial_state original_url = Some (out, s')"
  shows "(\<forall>u \<in> visited_urls s'. u = url \<or> startswith u original_url)
       \<and> (\<forall>u \<in> set (get_requests s'). u = url \<or> startswith u original_url)"
proof -
  have v: "\<forall>u \<in> visited_urls s'. u = url \<or> startswith u original_url"
    using visited_in_scope[OF assms, of url] by (simp add: initial_state_def)
  have "set (get_requests s') = visited_urls s'"
    using requests_invariant(1)[OF assms] by (simp add: initial_state_def)
  with v show ?thesis by simp
qed

theorem visited_only_in_scope_witness:
  "''https://other.com/c'' \<notin> {''https://ex.com/b'', ''https://ex.com/a'', ''https://ex.com/''}
   \<and> ''https://other.com/c'' \<notin> set [''https://ex.com/'', ''https://ex.com/a'', ''https://ex.com/b'']
   \<and> startswith ''https://ex.com/a'' ''https://ex.com/''"
  using visited_only_in_scope[OF ex_com_crawl]
  by (simp add: startswith_def)

section \<open>Properties of the answer parser\<close>

text \<open>The brace search on some inputs, and the three ways the parser falls back.\<close>

lemma re_search_braces_examples:
  "re_search_braces ''Sure: {} ok'' = Some ''{}''"
  "re_search_braces ''a {x} b {y} c'' = Some ''{x} b {y}''"
  "re_search_braces ''} {'' = None"
  "re_search_braces ''no braces'' = None"
  by (simp_all add: re_search_braces_def)

lemma parse_openai_response_fallbacks:
  "json_loads content = None \<Longrightarrow> re_search_braces content = None \<Longrightarrow>
     parse_openai_response json_loads content = JObject []"
  "json_loads content = None \<Longrightarrow> re_search_braces content = Some m \<Longrightarrow> json_loads m = None \<Longrightarrow>
     parse_openai_response json_loads content = JObject []"
  "json_loads content = None \<Longrightarrow> re_search_braces content = Some m \<Longrightarrow> json_loads m = Some v \<Longrightarrow>
     parse_openai_response json_loads content = v"
  by (simp_all add: parse_openai_response_def)

text \<open>
  C10 (the code differs): \<^verbatim>\<open>parse_openai_response\<close> returns whatever \<^verbatim>\<open>json.loads\<close> gives
  for the whole string, and that need not be a dictionary: for a string that is a JSON
  array (or a number, a string, a boolean, null) the result is that value.
\<close>

theorem parse_returns_any_json_value:
  "json_loads content = Some parsed \<Longrightarrow> parse_openai_response json_loads content = parsed"
  by (simp add: parse_openai_response_def)

theorem parse_returns_any_json_value_witness:
  "parse_openai_response loads_example ''[1, 2]'' = JArray [JNumber 1, JNumber 2]
   \<and> \<not> is_dict (parse_openai_response loads_example ''[1, 2]'')"
proof -
  have "loads_example ''[1, 2]'' = Some (JArray [JNumber 1, JNumber 2])"
    by (simp add: loads_example_def)
  from parse_returns_any_json_value[of loads_example "''[1, 2]''", OF this] show ?thesis by simp
qed

end
